theory Spec2Isabelle
  imports Main "HOL-Library.Word"
begin

unbundle bit_operations_syntax

section \<open>Canonical event log (package cel) and the register chain of the sealing tests\<close>

subsection \<open>Bytes, errors and the big-endian helpers of encoding/binary\<close>

type_synonym byte = "8 word"
type_synonym bytes = "byte list"

text \<open>
  The values of Go's \<open>error\<close> that the package produces, one constructor per
  \<open>fmt.Errorf\<close> site, \<open>EOF\<close> for \<open>io.EOF\<close>, \<open>ErrOther\<close> for an error that comes
  from a collaborator (a Content implementation, the crypto or tpm2 packages, the TPM),
  \<open>ErrMissingRegister\<close> and \<open>ErrAuthorization\<close> for the two failures of the sealing
  engine, and \<open>Panic\<close> for a run-time panic (slice bounds out of range, Size of an
  unknown hash).
\<close>

datatype error =
    EOF
  | ErrTLVLength
  | ErrNoHashAlgo
  | ErrRecnumType
  | ErrRecnumLength
  | ErrPcrType
  | ErrPcrLength
  | ErrDigestLength
  | ErrDigestsType
  | ErrBufferEnds
  | ErrOther string
  | ErrMissingRegister
  | ErrAuthorization
  | Panic

text \<open>\<open>binary.BigEndian.PutUint32\<close> and \<open>PutUint64\<close>: the bytes written, most
  significant first.\<close>

definition PutUint32 :: "32 word \<Rightarrow> bytes" where
  "PutUint32 v = [ucast (drop_bit 24 v), ucast (drop_bit 16 v), ucast (drop_bit 8 v), ucast v]"

definition PutUint64 :: "64 word \<Rightarrow> bytes" where
  "PutUint64 v =
     [ucast (drop_bit 56 v), ucast (drop_bit 48 v), ucast (drop_bit 40 v), ucast (drop_bit 32 v),
      ucast (drop_bit 24 v), ucast (drop_bit 16 v), ucast (drop_bit 8 v), ucast v]"

text \<open>\<open>binary.BigEndian.Uint32\<close> and \<open>Uint64\<close>. Go panics when the slice is
  shorter than 4 (8) bytes; every caller below has checked the length before.\<close>

definition Uint32 :: "bytes \<Rightarrow> 32 word" where
  "Uint32 b =
     ucast (b ! 3) OR push_bit 8 (ucast (b ! 2)) OR push_bit 16 (ucast (b ! 1))
       OR push_bit 24 (ucast (b ! 0))"

definition Uint64 :: "bytes \<Rightarrow> 64 word" where
  "Uint64 b =
     ucast (b ! 7) OR push_bit 8 (ucast (b ! 6)) OR push_bit 16 (ucast (b ! 5))
       OR push_bit 24 (ucast (b ! 4)) OR push_bit 32 (ucast (b ! 3))
       OR push_bit 40 (ucast (b ! 2)) OR push_bit 48 (ucast (b ! 1))
       OR push_bit 56 (ucast (b ! 0))"

subsection \<open>The constants of the package\<close>

definition recnumTypeValue :: byte where "recnumTypeValue = 0"
definition pcrTypeValue :: byte where "pcrTypeValue = 1"
definition digestsTypeValue :: byte where "digestsTypeValue = 3"

definition tlvTypeFieldLength :: nat where "tlvTypeFieldLength = 1"
definition tlvLengthFieldLength :: nat where "tlvLengthFieldLength = 4"

definition recnumValueLength :: "32 word" where "recnumValueLength = 8"
definition pcrValueLength :: "32 word" where "pcrValueLength = 1"

subsection \<open>TLV\<close>

record TLV =
  Type :: byte
  Value :: bytes

text \<open>\<open>MarshalBinary\<close>: type, \<open>uint32(len(Value))\<close> big-endian (the conversion
  truncates a length of \<open>2^32\<close> or more), value. The error result is always nil.\<close>

definition MarshalBinary :: "TLV \<Rightarrow> error + bytes" where
  "MarshalBinary tlv =
     Inr (Type tlv # PutUint32 (word_of_nat (length (Value tlv))) @ Value tlv)"

text \<open>\<open>UnmarshalBinary\<close>. The slice expression \<open>data[5:]\<close> panics when
  \<open>len(data) < 5\<close>; \<open>data[1:5]\<close> panics then too unless the capacity of the slice
  reaches 5, in which case the panic comes one line later. The length comparison is
  made in \<open>uint32\<close>.\<close>

definition UnmarshalBinary :: "bytes \<Rightarrow> error + TLV" where
  "UnmarshalBinary data =
     (if length data < tlvTypeFieldLength + tlvLengthFieldLength then Inl Panic
      else
        let valueLength =
              Uint32 (take tlvLengthFieldLength (drop tlvTypeFieldLength data))
        in if valueLength \<noteq>
                word_of_nat (length (drop (tlvTypeFieldLength + tlvLengthFieldLength) data))
           then Inl ErrTLVLength
           else Inr \<lparr>Type = data ! 0,
                     Value = drop (tlvTypeFieldLength + tlvLengthFieldLength) data\<rparr>)"

subsection \<open>bytes.Buffer\<close>

text \<open>
  A \<open>bytes.Buffer\<close> is its unread bytes: reading removes them from the front (the
  cursor moves forward), writing appends at the end. \<open>Read\<close> with a slice of length
  \<open>n\<close> returns the bytes it copied; on an empty buffer it returns \<open>io.EOF\<close> unless
  \<open>n = 0\<close>. \<open>Write\<close> always returns a nil error.
\<close>

definition Buffer_Len :: "bytes \<Rightarrow> nat" where
  "Buffer_Len buf = length buf"

definition Buffer_ReadByte :: "bytes \<Rightarrow> (error + byte) \<times> bytes" where
  "Buffer_ReadByte buf = (case buf of [] \<Rightarrow> (Inl EOF, []) | b # rest \<Rightarrow> (Inr b, rest))"

definition Buffer_Read :: "nat \<Rightarrow> bytes \<Rightarrow> (error + bytes) \<times> bytes" where
  "Buffer_Read n buf =
     (if buf = [] then (if n = 0 then (Inr [], []) else (Inl EOF, []))
      else (Inr (take n buf), drop n buf))"

definition Buffer_Write :: "bytes \<Rightarrow> bytes \<Rightarrow> bytes" where
  "Buffer_Write p buf = buf @ p"

text \<open>\<open>UnmarshalFirstTLV\<close>: the result and the buffer as the call leaves it. The
  allocation of \<open>valueLength\<close> bytes is taken to succeed.\<close>

definition UnmarshalFirstTLV :: "bytes \<Rightarrow> (error + TLV) \<times> bytes" where
  "UnmarshalFirstTLV buf =
     (case Buffer_ReadByte buf of
        (Inl err, buf1) \<Rightarrow> (Inl err, buf1)
      | (Inr typeByte, buf1) \<Rightarrow>
          (case Buffer_Read tlvLengthFieldLength buf1 of
             (Inl err, buf2) \<Rightarrow> (Inl err, buf2)
           | (Inr lengthBytes, buf2) \<Rightarrow>
               if length lengthBytes \<noteq> tlvLengthFieldLength then (Inl EOF, buf2)
               else
                 let valueLength = Uint32 lengthBytes in
                 (case Buffer_Read (unat valueLength) buf2 of
                    (Inl err, buf3) \<Rightarrow> (Inl err, buf3)
                  | (Inr valueBytes, buf3) \<Rightarrow>
                      if (word_of_nat (length valueBytes) :: 32 word) \<noteq> valueLength
                      then (Inl EOF, buf3)
                      else
                        (case UnmarshalBinary (typeByte # lengthBytes @ valueBytes) of
                           Inl err \<Rightarrow> (Inl err, buf3)
                         | Inr tlv \<Rightarrow> (Inr tlv, buf3)))))"

subsection \<open>Records, content and the log\<close>

record CELR =
  RECNUM :: TLV
  PCR :: TLV
  Digests :: TLV
  Content :: TLV

type_synonym hash = nat \<comment> \<open>\<open>crypto.Hash\<close>, a \<open>uint\<close>\<close>
type_synonym algorithm = "16 word" \<comment> \<open>\<open>tpm2.Algorithm\<close>, a \<open>uint16\<close>\<close>

text \<open>The interface \<open>Content\<close>: its two methods.\<close>

record ContentIface =
  GenerateDigest :: "hash \<Rightarrow> error + bytes"
  GetTLV :: TLV

record CEL =
  Records :: "CELR list"

text \<open>
  What the package uses of \<open>crypto\<close> and of \<open>go-tpm/tpm2\<close>, as parameters:
  \<open>crypto.Hash.Size\<close> (\<open>None\<close> where it panics on an unknown hash),
  \<open>tpm2.HashToAlgorithm\<close> and \<open>tpm2.Algorithm.Hash\<close>.
\<close>

record Libs =
  Hash_Size :: "hash \<Rightarrow> nat option"
  HashToAlgorithm :: "hash \<Rightarrow> error + algorithm"
  Algorithm_Hash :: "algorithm \<Rightarrow> error + hash"

text \<open>
  One instance, after the tables of Go's \<open>crypto\<close> package (\<open>digestSizes\<close>) and of
  go-tpm (\<open>hashInfos\<close>); \<open>Algorithm.Hash\<close> succeeds for the SHA-1 and SHA-2
  implementations that go-tpm links.
\<close>

definition SHA1 :: hash where "SHA1 = 3"
definition SHA256 :: hash where "SHA256 = 5"
definition SHA384 :: hash where "SHA384 = 6"
definition SHA512 :: hash where "SHA512 = 7"

definition go_Hash_Size :: "hash \<Rightarrow> nat option" where
  "go_Hash_Size h =
     (if h = 0 \<or> 20 \<le> h then None
      else Some ([0, 16, 16, 20, 28, 32, 48, 64, 36, 20, 28, 32, 48, 64, 28, 32, 32, 32, 48, 64] ! h))"

definition go_HashToAlgorithm :: "hash \<Rightarrow> error + algorithm" where
  "go_HashToAlgorithm h =
     (if h = 3 then Inr 0x0004 else if h = 5 then Inr 0x000B
      else if h = 6 then Inr 0x000C else if h = 7 then Inr 0x000D
      else if h = 11 then Inr 0x0027 else if h = 12 then Inr 0x0028
      else if h = 13 then Inr 0x0029
      else Inl (ErrOther ''go hash algorithm has no TPM2 algorithm''))"

definition go_Algorithm_Hash :: "algorithm \<Rightarrow> error + hash" where
  "go_Algorithm_Hash a =
     (if a = 0x0004 then Inr 3 else if a = 0x000B then Inr 5
      else if a = 0x000C then Inr 6 else if a = 0x000D then Inr 7
      else if a = 0x0027 \<or> a = 0x0028 \<or> a = 0x0029
        then Inl (ErrOther ''go hash algorithm not available'')
      else Inl (ErrOther ''hash algorithm not supported''))"

definition go_libs :: Libs where
  "go_libs = \<lparr>Hash_Size = go_Hash_Size, HashToAlgorithm = go_HashToAlgorithm,
               Algorithm_Hash = go_Algorithm_Hash\<rparr>"

subsection \<open>The fields of a record\<close>

definition createRecNumField :: "64 word \<Rightarrow> TLV" where
  "createRecNumField recNum = \<lparr>Type = recnumTypeValue, Value = PutUint64 recNum\<rparr>"

definition UnmarshalRecNum :: "TLV \<Rightarrow> error + 64 word" where
  "UnmarshalRecNum tlv =
     (if Type tlv \<noteq> recnumTypeValue then Inl ErrRecnumType
      else if (word_of_nat (length (Value tlv)) :: 32 word) \<noteq> recnumValueLength
        then Inl ErrRecnumLength
      else Inr (Uint64 (Value tlv)))"

definition createPCRField :: "byte \<Rightarrow> TLV" where
  "createPCRField pcrNum = \<lparr>Type = pcrTypeValue, Value = [pcrNum]\<rparr>"

definition UnmarshalPCR :: "TLV \<Rightarrow> error + byte" where
  "UnmarshalPCR tlv =
     (if Type tlv \<noteq> pcrTypeValue then Inl ErrPcrType
      else if (word_of_nat (length (Value tlv)) :: 32 word) \<noteq> pcrValueLength
        then Inl ErrPcrLength
      else Inr (Value tlv ! 0))"

text \<open>
  \<open>createDigestField\<close> ranges over a Go map, which visits the entries in an order
  that the language leaves open. The argument is the list of the entries of the map in
  the order of the visit: its keys are distinct, and two lists with the same set of
  entries are two visits of one map.
\<close>

fun createDigestField_loop :: "Libs \<Rightarrow> (hash \<times> bytes) list \<Rightarrow> bytes \<Rightarrow> error + bytes" where
  "createDigestField_loop L [] buf = Inr buf"
| "createDigestField_loop L ((hashAlgo, hash) # rest) buf =
     (case Hash_Size L hashAlgo of
        None \<Rightarrow> Inl Panic
      | Some sz \<Rightarrow>
          if length hash \<noteq> sz then Inl ErrDigestLength
          else
            (case HashToAlgorithm L hashAlgo of
               Inl err \<Rightarrow> Inl err
             | Inr tpmHashAlg \<Rightarrow>
                 (case MarshalBinary \<lparr>Type = ucast tpmHashAlg, Value = hash\<rparr> of
                    Inl err \<Rightarrow> Inl err
                  | Inr d \<Rightarrow> createDigestField_loop L rest (Buffer_Write d buf))))"

definition createDigestField :: "Libs \<Rightarrow> (hash \<times> bytes) list \<Rightarrow> error + TLV" where
  "createDigestField L digestMap =
     (case createDigestField_loop L digestMap [] of
        Inl err \<Rightarrow> Inl err
      | Inr b \<Rightarrow> Inr \<lparr>Type = digestsTypeValue, Value = b\<rparr>)"

function UnmarshalDigests_loop ::
  "Libs \<Rightarrow> bytes \<Rightarrow> (hash \<rightharpoonup> bytes) \<Rightarrow> error + (hash \<rightharpoonup> bytes)" where
  "UnmarshalDigests_loop L buf digestsMap =
     (if Buffer_Len buf > 0 then
        (case UnmarshalFirstTLV buf of
           (Inl err, buf') \<Rightarrow> if err = EOF then Inl ErrBufferEnds else Inl err
         | (Inr digestTLV, buf') \<Rightarrow>
             (case Algorithm_Hash L (ucast (Type digestTLV)) of
                Inl err \<Rightarrow> Inl err
              | Inr hashAlg \<Rightarrow>
                  UnmarshalDigests_loop L buf' (digestsMap(hashAlg \<mapsto> Value digestTLV))))
      else Inr digestsMap)"
  by pat_completeness auto
termination
proof (relation "measure (\<lambda>(L, buf, digestsMap). length buf)")
  show "wf (measure (\<lambda>(L, buf, digestsMap). length buf))"
    by simp
next
  fix L :: Libs and buf buf' :: bytes and digestsMap :: "hash \<rightharpoonup> bytes"
    and res :: "error + TLV" and digestTLV :: TLV and hashAlg :: hash
  assume "(res, buf') = UnmarshalFirstTLV buf" and "res = Inr digestTLV"
  then have "UnmarshalFirstTLV buf = (Inr digestTLV, buf')"
    by simp
  then have "length buf' < length buf"
    by (auto simp: UnmarshalFirstTLV_def Buffer_ReadByte_def Buffer_Read_def Let_def
        split: list.splits if_splits sum.splits)
  then show "((L, buf', digestsMap(hashAlg \<mapsto> Value digestTLV)), (L, buf, digestsMap))
               \<in> measure (\<lambda>(L, buf, digestsMap). length buf)"
    by simp
qed

declare UnmarshalDigests_loop.simps [simp del]

definition UnmarshalDigests :: "Libs \<Rightarrow> TLV \<Rightarrow> error + (hash \<rightharpoonup> bytes)" where
  "UnmarshalDigests L tlv =
     (if Type tlv \<noteq> digestsTypeValue then Inl ErrDigestsType
      else UnmarshalDigests_loop L (Value tlv) Map.empty)"

definition createCELR ::
  "Libs \<Rightarrow> 64 word \<Rightarrow> byte \<Rightarrow> (hash \<times> bytes) list \<Rightarrow> ContentIface \<Rightarrow> error + CELR" where
  "createCELR L recNum pcr digestsmap event =
     (let recnumField = createRecNumField recNum;
          pcrField = createPCRField pcr
      in case createDigestField L digestsmap of
           Inl err \<Rightarrow> Inl err
         | Inr digestField \<Rightarrow>
             Inr \<lparr>RECNUM = recnumField, PCR = pcrField, Digests = digestField,
                  Content = GetTLV event\<rparr>)"

subsection \<open>Encoding and decoding records and logs\<close>

definition EncodeCELR :: "CELR \<Rightarrow> bytes \<Rightarrow> error option \<times> bytes" where
  "EncodeCELR r buf =
     (case MarshalBinary (RECNUM r) of
        Inl err \<Rightarrow> (Some err, buf)
      | Inr recnumField \<Rightarrow>
     (case MarshalBinary (PCR r) of
        Inl err \<Rightarrow> (Some err, buf)
      | Inr pcrField \<Rightarrow>
     (case MarshalBinary (Digests r) of
        Inl err \<Rightarrow> (Some err, buf)
      | Inr digestsField \<Rightarrow>
     (case MarshalBinary (Content r) of
        Inl err \<Rightarrow> (Some err, buf)
      | Inr eventField \<Rightarrow>
          (None, Buffer_Write eventField (Buffer_Write digestsField
                   (Buffer_Write pcrField (Buffer_Write recnumField buf))))))))"

fun EncodeCEL_loop :: "CELR list \<Rightarrow> bytes \<Rightarrow> error option \<times> bytes" where
  "EncodeCEL_loop [] buf = (None, buf)"
| "EncodeCEL_loop (record # rest) buf =
     (case EncodeCELR record buf of
        (Some err, buf') \<Rightarrow> (Some err, buf')
      | (None, buf') \<Rightarrow> EncodeCEL_loop rest buf')"

definition EncodeCEL :: "CEL \<Rightarrow> bytes \<Rightarrow> error option \<times> bytes" where
  "EncodeCEL c buf = EncodeCEL_loop (Records c) buf"

definition DecodeToCELR :: "bytes \<Rightarrow> (error + CELR) \<times> bytes" where
  "DecodeToCELR buf =
     (case UnmarshalFirstTLV buf of
        (Inl err, buf1) \<Rightarrow> (Inl err, buf1)
      | (Inr recnum, buf1) \<Rightarrow>
          if Type recnum \<noteq> recnumTypeValue then (Inl ErrRecnumType, buf1)
          else
     (case UnmarshalFirstTLV buf1 of
        (Inl err, buf2) \<Rightarrow> (Inl err, buf2)
      | (Inr pcr, buf2) \<Rightarrow>
          if Type pcr \<noteq> pcrTypeValue then (Inl ErrPcrType, buf2)
          else
     (case UnmarshalFirstTLV buf2 of
        (Inl err, buf3) \<Rightarrow> (Inl err, buf3)
      | (Inr digests, buf3) \<Rightarrow>
          if Type digests \<noteq> digestsTypeValue then (Inl ErrDigestsType, buf3)
          else
     (case UnmarshalFirstTLV buf3 of
        (Inl err, buf4) \<Rightarrow> (Inl err, buf4)
      | (Inr content, buf4) \<Rightarrow>
          (Inr \<lparr>RECNUM = recnum, PCR = pcr, Digests = digests, Content = content\<rparr>,
           buf4)))))"

function DecodeToCEL_loop :: "bytes \<Rightarrow> CEL \<Rightarrow> (error + CEL) \<times> bytes" where
  "DecodeToCEL_loop buf cel =
     (if Buffer_Len buf > 0 then
        (case DecodeToCELR buf of
           (Inl err, buf') \<Rightarrow>
             if err = EOF then (Inl ErrBufferEnds, buf') else (Inl err, buf')
         | (Inr celr, buf') \<Rightarrow>
             DecodeToCEL_loop buf' (cel\<lparr>Records := Records cel @ [celr]\<rparr>))
      else (Inr cel, buf))"
  by pat_completeness auto
termination
proof (relation "measure (\<lambda>(buf, cel). length buf)")
  show "wf (measure (\<lambda>(buf, cel). length buf))"
    by simp
next
  fix buf buf' :: bytes and cel :: CEL and res :: "error + CELR" and celr :: CELR
  assume "(res, buf') = DecodeToCELR buf" and "res = Inr celr"
  then have "DecodeToCELR buf = (Inr celr, buf')"
    by simp
  then obtain recnum buf1 pcr buf2 digests buf3 content where
      u1: "UnmarshalFirstTLV buf = (Inr recnum, buf1)" and
      u2: "UnmarshalFirstTLV buf1 = (Inr pcr, buf2)" and
      u3: "UnmarshalFirstTLV buf2 = (Inr digests, buf3)" and
      u4: "UnmarshalFirstTLV buf3 = (Inr content, buf')"
    by (auto simp: DecodeToCELR_def split: prod.splits if_splits sum.splits)
  have shrink: "length b' < length b" if "UnmarshalFirstTLV b = (Inr t, b')" for b t b'
    using that
    by (auto simp: UnmarshalFirstTLV_def Buffer_ReadByte_def Buffer_Read_def Let_def
        split: list.splits if_splits sum.splits)
  have "length buf' < length buf"
    using shrink [OF u1] shrink [OF u2] shrink [OF u3] shrink [OF u4] by linarith
  then show "((buf', cel\<lparr>Records := Records cel @ [celr]\<rparr>), (buf, cel))
               \<in> measure (\<lambda>(buf, cel). length buf)"
    by simp
qed

declare DecodeToCEL_loop.simps [simp del]

definition DecodeToCEL :: "bytes \<Rightarrow> (error + CEL) \<times> bytes" where
  "DecodeToCEL buf = DecodeToCEL_loop buf \<lparr>Records = []\<rparr>"

subsection \<open>Appending an event\<close>

text \<open>The loop of \<open>AppendEvent\<close> that fills \<open>digestsMap\<close>, one digest for each
  requested algorithm, in order; it stops at the first error.\<close>

fun generateDigests ::
  "ContentIface \<Rightarrow> hash list \<Rightarrow> (hash \<rightharpoonup> bytes) \<Rightarrow> error + (hash \<rightharpoonup> bytes)" where
  "generateDigests event [] digestsMap = Inr digestsMap"
| "generateDigests event (hashAlgo # rest) digestsMap =
     (case GenerateDigest event hashAlgo of
        Inl err \<Rightarrow> Inl err
      | Inr digest \<Rightarrow> generateDigests event rest (digestsMap(hashAlgo \<mapsto> digest)))"

text \<open>
  \<open>AppendEvent\<close>, with the log before the call and the log after it. The argument
  \<open>tpm\<close> is not used by the code and is left out. \<open>rng\<close> is the order in which the
  \<open>range\<close> statement of \<open>createDigestField\<close> visits the map that the call has built.
  \<open>len(c.Records)\<close> is converted to \<open>uint64\<close> and \<open>pcr\<close>, an \<open>int\<close>, to \<open>uint8\<close>.
\<close>

definition AppendEvent ::
  "Libs \<Rightarrow> ((hash \<rightharpoonup> bytes) \<Rightarrow> (hash \<times> bytes) list) \<Rightarrow> CEL \<Rightarrow> int \<Rightarrow> hash list
     \<Rightarrow> ContentIface \<Rightarrow> error option \<times> CEL" where
  "AppendEvent L rng c pcr hashAlgos event =
     (if length hashAlgos = 0 then (Some ErrNoHashAlgo, c)
      else
        (case generateDigests event hashAlgos Map.empty of
           Inl err \<Rightarrow> (Some err, c)
         | Inr digestsMap \<Rightarrow>
             (case createCELR L (word_of_nat (length (Records c))) (word_of_int pcr)
                     (rng digestsMap) event of
                Inl err \<Rightarrow> (Some err, c)
              | Inr celr \<Rightarrow> (None, c\<lparr>Records := Records c @ [celr]\<rparr>))))"

subsection \<open>The register chain of the sealing tests\<close>







subsection \<open>The sealing engine\<close>

text \<open>
  Modelled from the spec: the data of the sealing engine (sections 3 and 4.5 to 4.7).
  \<open>Key.Seal\<close> and \<open>Key.Unseal\<close> are in the repository's \<open>tpm2tools/keys.go\<close>, which
  is not among the sources at hand; only their tests are. The live registers are a
  function from the algorithm of a bank and a register index to the value; a selection
  is an algorithm and a list of register indices; a snapshot is an explicit
  register-value map. A sealed blob is an opaque payload with the authorization policy it
  is bound to (none for a blob sealed without a register policy).
\<close>

type_synonym registers = "algorithm \<Rightarrow> nat \<Rightarrow> bytes"

record selection =
  sel_algorithm :: algorithm
  sel_registers :: "nat list"

record snapshot =
  snap_algorithm :: algorithm
  snap_values :: "(nat \<times> bytes) list"

datatype assertion =
    CurrentRegisters selection
  | ExpectedRegisters snapshot
  | TargetRegisters snapshot

record 'p SealedBlob =
  payload :: 'p
  policy :: "(selection \<times> bytes) option"

text \<open>
  Modelled from the spec: the external collaborators of section 6 and the constants of
  section 4.6 (the hash function with its digest size, the identifier of the policy
  command, the encoding of a selection, encryption and decryption under a parent key),
  none of which the repository implements.
\<close>

record 'p collaborator =
  Hash :: "bytes \<Rightarrow> bytes"
  Hash_size :: nat
  policy_command_identifier :: bytes
  selection_structure_encoding :: "selection \<Rightarrow> bytes"
  encrypt_under_parent :: "nat \<Rightarrow> bytes \<Rightarrow> bytes option \<Rightarrow> error + 'p"
  decrypt_under_parent :: "nat \<Rightarrow> 'p \<Rightarrow> bytes option \<Rightarrow> error + bytes"

text \<open>Modelled from the spec: \<open>read_registers\<close> of section 6, the values of the
  selected live registers.\<close>

definition read_registers :: "registers \<Rightarrow> selection \<Rightarrow> (nat \<times> bytes) list" where
  "read_registers regs sel = map (\<lambda>i. (i, regs (sel_algorithm sel) i)) (sel_registers sel)"

text \<open>Modelled from the spec: section 4.5, the register-value map that an assertion
  stands for: the live values for \<open>CurrentRegisters\<close>, the snapshot itself for the
  other two.\<close>

fun evaluate_assertion :: "registers \<Rightarrow> assertion \<Rightarrow> selection \<times> (nat \<times> bytes) list" where
  "evaluate_assertion regs (CurrentRegisters sel) = (sel, read_registers regs sel)"
| "evaluate_assertion regs (ExpectedRegisters snap) =
     (\<lparr>sel_algorithm = snap_algorithm snap, sel_registers = map fst (snap_values snap)\<rparr>,
      snap_values snap)"
| "evaluate_assertion regs (TargetRegisters snap) =
     (\<lparr>sel_algorithm = snap_algorithm snap, sel_registers = map fst (snap_values snap)\<rparr>,
      snap_values snap)"

text \<open>
  Modelled from the spec: the offline policy digest of section 4.6. It starts from a
  zero-filled digest, hashes the values of the selected registers in ascending order of
  index, and hashes the running digest with the command identifier, the encoding of the
  selection and the digest of the registers. A selected register that the map omits is
  an error.
\<close>

definition policy_digest ::
  "'p collaborator \<Rightarrow> selection \<Rightarrow> (nat \<times> bytes) list \<Rightarrow> error + bytes" where
  "policy_digest hw sel vals =
     (if list_ex (\<lambda>i. map_of vals i = None) (sel_registers sel) then Inl ErrMissingRegister
      else
        let running_digest = replicate (Hash_size hw) 0;
            registers_digest =
              Hash hw (concat (map (\<lambda>i. the (map_of vals i))
                                   (sort (remdups (sel_registers sel)))))
        in Inr (Hash hw (running_digest @ policy_command_identifier hw
                           @ selection_structure_encoding hw sel @ registers_digest)))"

text \<open>
  Modelled from the spec: \<open>Seal\<close> of section 4.7. It evaluates the assertion, computes
  the authorization digest and has the secret encrypted under the parent key for that
  digest; with no assertion the blob has no register policy.
\<close>

definition Seal ::
  "'p collaborator \<Rightarrow> registers \<Rightarrow> nat \<Rightarrow> bytes \<Rightarrow> assertion option \<Rightarrow> error + 'p SealedBlob" where
  "Seal hw regs parent secret assertion =
     (case assertion of
        None \<Rightarrow>
          (case encrypt_under_parent hw parent secret None of
             Inl err \<Rightarrow> Inl err
           | Inr p \<Rightarrow> Inr \<lparr>payload = p, policy = None\<rparr>)
      | Some a \<Rightarrow>
          (case evaluate_assertion regs a of
             (sel, vals) \<Rightarrow>
               (case policy_digest hw sel vals of
                  Inl err \<Rightarrow> Inl err
                | Inr d \<Rightarrow>
                    (case encrypt_under_parent hw parent secret (Some d) of
                       Inl err \<Rightarrow> Inl err
                     | Inr p \<Rightarrow> Inr \<lparr>payload = p, policy = Some (sel, d)\<rparr>))))"

text \<open>
  Modelled from the spec: \<open>Unseal\<close> of section 4.7. With no certify assertion the policy
  is evaluated by a live policy session against the registers as they are now; by the
  contract of section 4.6 the digest of that session is the offline digest of the live
  values. With a certify assertion the digest is computed from the map of the assertion
  (the reading "instead of the live path"). A digest that differs from the one in the
  blob is an authorization failure.
\<close>

definition Unseal ::
  "'p collaborator \<Rightarrow> registers \<Rightarrow> 'p SealedBlob \<Rightarrow> nat \<Rightarrow> assertion option \<Rightarrow> error + bytes" where
  "Unseal hw regs blob parent certify =
     (case policy blob of
        None \<Rightarrow> decrypt_under_parent hw parent (payload blob) None
      | Some (sel, embedded) \<Rightarrow>
          (case (case certify of
                   None \<Rightarrow> policy_digest hw sel (read_registers regs sel)
                 | Some a \<Rightarrow>
                     (case evaluate_assertion regs a of
                        (sel', vals) \<Rightarrow> policy_digest hw sel' vals)) of
             Inl err \<Rightarrow> Inl err
           | Inr d \<Rightarrow>
               if d \<noteq> embedded then Inl ErrAuthorization
               else decrypt_under_parent hw parent (payload blob) (Some d)))"

subsection \<open>Notions used to state the properties\<close>





text \<open>The wire form of a TLV and of a record, and the records that the wire form can
  carry: the length of each value fits the 4-byte length field, and the first three
  fields have the types 0, 1 and 3.\<close>

definition TLV_bytes :: "TLV \<Rightarrow> bytes" where
  "TLV_bytes tlv = Type tlv # PutUint32 (word_of_nat (length (Value tlv))) @ Value tlv"

definition CELR_bytes :: "CELR \<Rightarrow> bytes" where
  "CELR_bytes r =
     TLV_bytes (RECNUM r) @ TLV_bytes (PCR r) @ TLV_bytes (Digests r) @ TLV_bytes (Content r)"

definition well_formed_TLV :: "TLV \<Rightarrow> bool" where
  "well_formed_TLV tlv \<longleftrightarrow> length (Value tlv) < 2 ^ 32"

definition valid_record :: "CELR \<Rightarrow> bool" where
  "valid_record r \<longleftrightarrow>
     well_formed_TLV (RECNUM r) \<and> well_formed_TLV (PCR r) \<and> well_formed_TLV (Digests r) \<and>
     well_formed_TLV (Content r) \<and>
     Type (RECNUM r) = recnumTypeValue \<and> Type (PCR r) = pcrTypeValue \<and>
     Type (Digests r) = digestsTypeValue"

text \<open>
  An entry of the digest map that \<open>createDigestField\<close> accepts, and the bytes it writes
  for it; and what the nested TLVs of a DIGESTS value stand for, read in order (a later
  entry for the same algorithm replaces an earlier one).
\<close>

definition digest_entry_ok :: "Libs \<Rightarrow> hash \<times> bytes \<Rightarrow> bool" where
  "digest_entry_ok L e \<longleftrightarrow>
     Hash_Size L (fst e) = Some (length (snd e)) \<and> \<not> isl (HashToAlgorithm L (fst e))"

definition digest_entry_bytes :: "Libs \<Rightarrow> hash \<times> bytes \<Rightarrow> bytes" where
  "digest_entry_bytes L e =
     (case HashToAlgorithm L (fst e) of
        Inl err \<Rightarrow> []
      | Inr tpmHashAlg \<Rightarrow> TLV_bytes \<lparr>Type = ucast tpmHashAlg, Value = snd e\<rparr>)"

fun digests_of_entries :: "Libs \<Rightarrow> TLV list \<Rightarrow> (hash \<rightharpoonup> bytes) \<Rightarrow> error + (hash \<rightharpoonup> bytes)" where
  "digests_of_entries L [] m = Inr m"
| "digests_of_entries L (e # es) m =
     (case Algorithm_Hash L (ucast (Type e)) of
        Inl err \<Rightarrow> Inl err
      | Inr hashAlg \<Rightarrow> digests_of_entries L es (m(hashAlg \<mapsto> Value e)))"

text \<open>A sequence of calls of \<open>AppendEvent\<close> on one log, each with its arguments and
  with the order in which its \<open>range\<close> visits the digests; the sequence stops at the
  first call that fails.\<close>

type_synonym append_call =
  "((hash \<rightharpoonup> bytes) \<Rightarrow> (hash \<times> bytes) list) \<times> int \<times> hash list \<times> ContentIface"

fun AppendEvents :: "Libs \<Rightarrow> CEL \<Rightarrow> append_call list \<Rightarrow> error + CEL" where
  "AppendEvents L c [] = Inr c"
| "AppendEvents L c ((rng, pcr, hashAlgos, event) # calls) =
     (case AppendEvent L rng c pcr hashAlgos event of
        (Some err, c') \<Rightarrow> Inl err
      | (None, c') \<Rightarrow> AppendEvents L c' calls)"

text \<open>One order of visit: the keys of the map that occur in \<open>ks\<close>, as they occur
  there.\<close>

definition visit_in_order :: "hash list \<Rightarrow> (hash \<rightharpoonup> bytes) \<Rightarrow> (hash \<times> bytes) list" where
  "visit_in_order ks m = concat (map (\<lambda>h. case m h of None \<Rightarrow> [] | Some d \<Rightarrow> [(h, d)]) ks)"

text \<open>A record, a content, two calls and the log they build, used as concrete inputs
  below.\<close>

definition example_record :: CELR where
  "example_record =
     \<lparr>RECNUM = \<lparr>Type = 0, Value = [0, 0, 0, 0, 0, 0, 0, 0]\<rparr>,
      PCR = \<lparr>Type = 1, Value = [23]\<rparr>,
      Digests = \<lparr>Type = 3, Value = [4, 0, 0, 0, 2, 0xAA, 0xBB]\<rparr>,
      Content = \<lparr>Type = 80, Value = [1, 2, 3]\<rparr>\<rparr>"

definition example_content :: ContentIface where
  "example_content =
     \<lparr>GenerateDigest =
        (\<lambda>h. if h = SHA256 then Inr (replicate 32 0xAB)
             else if h = SHA1 then Inr (replicate 20 0xCD)
             else Inl (ErrOther ''no digest for this hash'')),
      GetTLV = \<lparr>Type = 80, Value = [1, 2, 3]\<rparr>\<rparr>"

definition example_calls :: "append_call list" where
  "example_calls =
     [(visit_in_order [SHA1, SHA256], 23, [SHA1], example_content),
      (visit_in_order [SHA1, SHA256], 7, [SHA1], example_content)]"

definition example_log :: CEL where
  "example_log =
     \<lparr>Records =
        [\<lparr>RECNUM = \<lparr>Type = 0, Value = [0, 0, 0, 0, 0, 0, 0, 0]\<rparr>,
          PCR = \<lparr>Type = 1, Value = [23]\<rparr>,
          Digests = \<lparr>Type = 3, Value = [4, 0, 0, 0, 20] @ replicate 20 0xCD\<rparr>,
          Content = \<lparr>Type = 80, Value = [1, 2, 3]\<rparr>\<rparr>,
         \<lparr>RECNUM = \<lparr>Type = 0, Value = [0, 0, 0, 0, 0, 0, 0, 1]\<rparr>,
          PCR = \<lparr>Type = 1, Value = [7]\<rparr>,
          Digests = \<lparr>Type = 3, Value = [4, 0, 0, 0, 20] @ replicate 20 0xCD\<rparr>,
          Content = \<lparr>Type = 80, Value = [1, 2, 3]\<rparr>\<rparr>]\<rparr>"

definition example_digests :: "(hash \<times> bytes) list" where
  "example_digests = [(SHA1, replicate 20 0xCD), (SHA256, replicate 32 0xAB)]"

definition example_entry :: TLV where
  "example_entry = \<lparr>Type = 0x0B, Value = [0xAA]\<rparr>"

text \<open>A collaborator with a toy hash and an encryption that keeps the parent, the
  secret and the digest; registers, a selection and the blob that sealing "test" under
  them gives.\<close>

definition example_tpm :: "(nat \<times> bytes \<times> bytes option) collaborator" where
  "example_tpm =
     \<lparr>Hash = (\<lambda>b. [word_of_nat (length b), word_of_nat (sum_list (map unat b))]),
      Hash_size = 2,
      policy_command_identifier = [0x01, 0x7F],
      selection_structure_encoding =
        (\<lambda>sel. ucast (sel_algorithm sel) # map word_of_nat (sel_registers sel)),
      encrypt_under_parent = (\<lambda>parent secret d. Inr (parent, secret, d)),
      decrypt_under_parent =
        (\<lambda>parent p d. if fst p = parent \<and> snd (snd p) = d then Inr (fst (snd p))
                       else Inl ErrAuthorization)\<rparr>"

definition example_registers :: registers where
  "example_registers alg i = [word_of_nat i, 0x11]"

definition example_selection :: selection where
  "example_selection = \<lparr>sel_algorithm = 0x000B, sel_registers = [7, 23]\<rparr>"


definition example_blob :: "(nat \<times> bytes \<times> bytes option) SealedBlob" where
  "example_blob =
     \<lparr>payload = (1, [0x74, 0x65, 0x73, 0x74], Some [9, 237]),
      policy = Some (example_selection, [9, 237])\<rparr>"






section \<open>Properties\<close>

subsection \<open>Big-endian helpers\<close>

lemma byte_at:
  fixes v :: "'a::len word"
  shows "push_bit k (ucast (ucast (drop_bit k v) :: byte) :: 'a word)
           = push_bit k (take_bit 8 (drop_bit k v))"
  by (rule bit_word_eqI) (auto simp: bit_simps)

lemma byte_at0:
  fixes v :: "'a::len word"
  shows "(ucast (ucast v :: byte) :: 'a word) = take_bit 8 v"
  by (rule bit_word_eqI) (auto simp: bit_simps)

lemma slice_join:
  fixes v :: "'a::len word"
  shows "take_bit k v OR push_bit k (take_bit 8 (drop_bit k v)) = take_bit (k + 8) v"
  by (rule bit_word_eqI) (auto simp: bit_simps)

lemma Uint32_PutUint32: "Uint32 (PutUint32 v) = v"
proof -
  have "Uint32 (PutUint32 v) =
        take_bit 8 v OR push_bit 8 (take_bit 8 (drop_bit 8 v))
          OR push_bit 16 (take_bit 8 (drop_bit 16 v)) OR push_bit 24 (take_bit 8 (drop_bit 24 v))"
    by (simp add: Uint32_def PutUint32_def byte_at byte_at0)
  also have "\<dots> = take_bit 32 v"
    using slice_join [of 8 v] slice_join [of 16 v] slice_join [of 24 v]
    by (simp add: or.assoc [symmetric])
  finally show ?thesis by (simp add: take_bit_word_eq_self)
qed

lemma Uint64_PutUint64: "Uint64 (PutUint64 v) = v"
proof -
  have "Uint64 (PutUint64 v) =
        take_bit 8 v OR push_bit 8 (take_bit 8 (drop_bit 8 v))
          OR push_bit 16 (take_bit 8 (drop_bit 16 v)) OR push_bit 24 (take_bit 8 (drop_bit 24 v))
          OR push_bit 32 (take_bit 8 (drop_bit 32 v)) OR push_bit 40 (take_bit 8 (drop_bit 40 v))
          OR push_bit 48 (take_bit 8 (drop_bit 48 v)) OR push_bit 56 (take_bit 8 (drop_bit 56 v))"
    by (simp add: Uint64_def PutUint64_def byte_at byte_at0)
  also have "\<dots> = take_bit 64 v"
    using slice_join [of 8 v] slice_join [of 16 v] slice_join [of 24 v] slice_join [of 32 v]
      slice_join [of 40 v] slice_join [of 48 v] slice_join [of 56 v]
    by (simp add: or.assoc [symmetric])
  finally show ?thesis by (simp add: take_bit_word_eq_self)
qed

lemma length_PutUint32: "length (PutUint32 v) = 4"
  by (simp add: PutUint32_def)

lemma length_PutUint64: "length (PutUint64 v) = 8"
  by (simp add: PutUint64_def)


subsection \<open>The TLV codec\<close>

lemma UnmarshalFirstTLV_split:
  assumes lb: "length lb = 4"
  shows "UnmarshalFirstTLV (t # lb @ tb) =
           (if unat (Uint32 lb) \<le> length tb
            then (Inr \<lparr>Type = t, Value = take (unat (Uint32 lb)) tb\<rparr>,
                  drop (unat (Uint32 lb)) tb)
            else (Inl EOF, []))"
proof -
  define n where "n = unat (Uint32 lb)"
  have n32: "n < 2 ^ 32"
    unfolding n_def using unsigned_less [of "Uint32 lb", where ?'a = nat] by simp
  have wn: "(word_of_nat n :: 32 word) = Uint32 lb"
    by (simp add: n_def)
  have rd4: "Buffer_Read 4 (lb @ tb) = (Inr lb, tb)"
    using lb by (auto simp: Buffer_Read_def)
  have start: "UnmarshalFirstTLV (t # lb @ tb) =
      (case Buffer_Read n tb of
         (Inl err, buf3) \<Rightarrow> (Inl err, buf3)
       | (Inr valueBytes, buf3) \<Rightarrow>
           if (word_of_nat (length valueBytes) :: 32 word) \<noteq> Uint32 lb then (Inl EOF, buf3)
           else (case UnmarshalBinary (t # lb @ valueBytes) of
                   Inl err \<Rightarrow> (Inl err, buf3)
                 | Inr tlv \<Rightarrow> (Inr tlv, buf3)))"
    using lb
    by (simp add: UnmarshalFirstTLV_def Buffer_ReadByte_def rd4 n_def tlvLengthFieldLength_def
        Let_def)
  show ?thesis
  proof (cases "n \<le> length tb")
    case True
    have ub: "UnmarshalBinary (t # lb @ take n tb) = Inr \<lparr>Type = t, Value = take n tb\<rparr>"
      using lb True wn
      by (simp add: UnmarshalBinary_def tlvTypeFieldLength_def tlvLengthFieldLength_def
          min_absorb2)
    have rdn: "Buffer_Read n tb = (Inr (take n tb), drop n tb)"
      using True by (auto simp: Buffer_Read_def)
    have "(word_of_nat (length (take n tb)) :: 32 word) = Uint32 lb"
      using True wn by (simp add: min_absorb2)
    then show ?thesis
      using True by (simp add: start rdn ub n_def [symmetric])
  next
    case short: False
    have ne: "(word_of_nat (length tb) :: 32 word) \<noteq> Uint32 lb"
    proof
      assume "(word_of_nat (length tb) :: 32 word) = Uint32 lb"
      then have "unat (word_of_nat (length tb) :: 32 word) = n"
        by (simp add: n_def)
      moreover have "length tb < 2 ^ 32"
        using short n32 by simp
      ultimately show False
        using short by (simp add: unat_of_nat)
    qed
    have rdn: "Buffer_Read n tb = (if tb = [] then (Inl EOF, []) else (Inr tb, []))"
      using short by (auto simp: Buffer_Read_def)
    show ?thesis
      using short ne by (simp add: start rdn n_def [symmetric])
  qed
qed

lemma UnmarshalFirstTLV_short:
  "length buf < 5 \<Longrightarrow> UnmarshalFirstTLV buf = (Inl EOF, [])"
  by (cases buf)
    (auto simp: UnmarshalFirstTLV_def Buffer_ReadByte_def Buffer_Read_def
      tlvLengthFieldLength_def)

lemma UnmarshalFirstTLV_eq:
  "UnmarshalFirstTLV buf =
     (if 5 \<le> length buf \<and> 5 + unat (Uint32 (take 4 (drop 1 buf))) \<le> length buf
      then (Inr \<lparr>Type = buf ! 0,
                 Value = take (unat (Uint32 (take 4 (drop 1 buf)))) (drop 5 buf)\<rparr>,
            drop (5 + unat (Uint32 (take 4 (drop 1 buf)))) buf)
      else (Inl EOF, []))"
proof (cases "length buf < 5")
  case True
  then show ?thesis
    by (simp add: UnmarshalFirstTLV_short)
next
  case False
  then obtain t rest where c: "buf = t # rest" and r: "4 \<le> length rest"
    by (cases buf) auto
  have dr: "drop (5 + k) buf = drop k (drop 4 rest)" for k
    by (simp add: c add.commute [of 5 k] flip: drop_drop)
  have "UnmarshalFirstTLV (t # take 4 rest @ drop 4 rest) =
          (if unat (Uint32 (take 4 rest)) \<le> length (drop 4 rest)
           then (Inr \<lparr>Type = t, Value = take (unat (Uint32 (take 4 rest))) (drop 4 rest)\<rparr>,
                 drop (unat (Uint32 (take 4 rest))) (drop 4 rest))
           else (Inl EOF, []))"
    using r by (intro UnmarshalFirstTLV_split) simp
  then show ?thesis
    using r unfolding dr by (auto simp: c)
qed

lemma UnmarshalFirstTLV_Marshal:
  assumes "length v < 2 ^ 32"
  shows "UnmarshalFirstTLV (t # PutUint32 (word_of_nat (length v)) @ v @ rest)
           = (Inr \<lparr>Type = t, Value = v\<rparr>, rest)"
proof -
  have "unat (Uint32 (PutUint32 (word_of_nat (length v)))) = length v"
    using assms by (simp add: Uint32_PutUint32 unat_of_nat)
  then show ?thesis
    using UnmarshalFirstTLV_split
      [where lb = "PutUint32 (word_of_nat (length v))" and t = t and tb = "v @ rest"]
    by (simp add: length_PutUint32)
qed


text \<open>
  C9. \<open>TLV.UnmarshalBinary\<close> needs an input of at least 5 bytes (the type byte and the
  4-byte length field): on every input of 5 bytes or more it returns the length-mismatch
  error or the TLV made of the first byte and of the bytes from the sixth on, and on every
  input shorter than 5 bytes the slice expressions run out of bounds and the call panics
  instead of returning an error.
\<close>

theorem UnmarshalBinary_needs_5_bytes:
  "(5 \<le> length data \<longrightarrow>
      UnmarshalBinary data = Inl ErrTLVLength \<or>
      UnmarshalBinary data = Inr \<lparr>Type = data ! 0, Value = drop 5 data\<rparr>) \<and>
   (length data < 5 \<longrightarrow> UnmarshalBinary data = Inl Panic)"
  by (simp add: UnmarshalBinary_def tlvTypeFieldLength_def tlvLengthFieldLength_def Let_def)

theorem UnmarshalBinary_needs_5_bytes_witness:
  "5 \<le> length [1, 0, 0, 0, 1, 7 :: byte] \<and>
   (UnmarshalBinary [1, 0, 0, 0, 1, 7] = Inl ErrTLVLength \<or>
    UnmarshalBinary [1, 0, 0, 0, 1, 7] = Inr \<lparr>Type = 1, Value = [7]\<rparr>) \<and>
   length [1, 0, 0 :: byte] < 5 \<and> UnmarshalBinary [1, 0, 0] = Inl Panic"
  using UnmarshalBinary_needs_5_bytes [of "[1, 0, 0, 0, 1, 7]"]
    UnmarshalBinary_needs_5_bytes [of "[1, 0, 0]"]
  by simp

text \<open>
  C3, as the code has it. \<open>UnmarshalFirstTLV\<close> returns \<open>io.EOF\<close>, and never the
  length-mismatch error, when the stream ends before the type byte, the length field or
  the declared value bytes are complete; the bytes it has read by then stay consumed, so
  that it leaves the buffer empty. When it returns a TLV, the cursor has moved over
  exactly that TLV: the type byte, the four length bytes and as many value bytes as the
  length field says.
\<close>

theorem UnmarshalFirstTLV_cursor:
  "(case UnmarshalFirstTLV buf of
      (Inr tlv, buf') \<Rightarrow>
        buf = Type tlv # take 4 (drop 1 buf) @ Value tlv @ buf' \<and>
        4 \<le> length (drop 1 buf) \<and>
        length (Value tlv) = unat (Uint32 (take 4 (drop 1 buf)))
    | (Inl err, buf') \<Rightarrow>
        err = EOF \<and> buf' = [] \<and>
        (length buf < 5 \<or> length buf < 5 + unat (Uint32 (take 4 (drop 1 buf)))))"
proof (cases "5 \<le> length buf \<and> 5 + unat (Uint32 (take 4 (drop 1 buf))) \<le> length buf")
  case True
  then obtain t rest where c: "buf = t # rest"
    by (cases buf) auto
  define n where "n = unat (Uint32 (take 4 rest))"
  have e1: "rest = take 4 rest @ drop 4 rest"
    by (simp only: append_take_drop_id)
  have e2: "drop 4 rest = take n (drop 4 rest) @ drop n (drop 4 rest)"
    by (simp only: append_take_drop_id)
  have "rest = take 4 rest @ take n (drop 4 rest) @ drop n (drop 4 rest)"
    using e1 e2 by metis
  then show ?thesis
    using True
    by (auto simp add: UnmarshalFirstTLV_eq c add.commute n_def [symmetric] drop_Cons')
next
  case False
  then show ?thesis
    by (auto simp: UnmarshalFirstTLV_eq)
qed

text \<open>C3, as the claim states it, fails: a stream that declares two value bytes and holds
  one. The call returns \<open>io.EOF\<close> and has consumed all six bytes.\<close>

theorem UnmarshalFirstTLV_cursor_counterexample:
  "fst (UnmarshalFirstTLV [3, 0, 0, 0, 2, 0xAA]) = Inl EOF \<and>
   snd (UnmarshalFirstTLV [3, 0, 0, 0, 2, 0xAA]) = [] \<and>
   snd (UnmarshalFirstTLV [3, 0, 0, 0, 2, 0xAA]) \<noteq> [3, 0, 0, 0, 2, 0xAA]"
  by (simp add: UnmarshalFirstTLV_eq Uint32_def)

subsection \<open>Round trip of records and logs\<close>

lemma MarshalBinary_bytes: "MarshalBinary tlv = Inr (TLV_bytes tlv)"
  by (simp add: MarshalBinary_def TLV_bytes_def)

lemma EncodeCELR_bytes: "EncodeCELR r buf = (None, buf @ CELR_bytes r)"
  by (simp add: EncodeCELR_def MarshalBinary_bytes Buffer_Write_def CELR_bytes_def)

lemma EncodeCEL_loop_bytes:
  "EncodeCEL_loop rs buf = (None, buf @ concat (map CELR_bytes rs))"
  by (induction rs arbitrary: buf) (simp_all add: EncodeCELR_bytes)

lemma UnmarshalFirstTLV_bytes:
  "well_formed_TLV tlv \<Longrightarrow> UnmarshalFirstTLV (TLV_bytes tlv @ rest) = (Inr tlv, rest)"
  using UnmarshalFirstTLV_Marshal [of "Value tlv" "Type tlv" rest]
  by (simp add: well_formed_TLV_def TLV_bytes_def)

lemma DecodeToCELR_bytes:
  assumes "valid_record r"
  shows "DecodeToCELR (CELR_bytes r @ rest) = (Inr r, rest)"
proof -
  have wf: "well_formed_TLV (RECNUM r)" "well_formed_TLV (PCR r)"
    "well_formed_TLV (Digests r)" "well_formed_TLV (Content r)"
    and ty: "Type (RECNUM r) = recnumTypeValue" "Type (PCR r) = pcrTypeValue"
    "Type (Digests r) = digestsTypeValue"
    using assms by (simp_all add: valid_record_def)
  show ?thesis
    by (simp add: DecodeToCELR_def CELR_bytes_def UnmarshalFirstTLV_bytes wf ty)
qed

lemma CELR_bytes_nonempty: "CELR_bytes r \<noteq> []"
  by (simp add: CELR_bytes_def TLV_bytes_def)

lemma DecodeToCEL_loop_bytes:
  assumes "\<forall>r \<in> set rs. valid_record r"
  shows "DecodeToCEL_loop (concat (map CELR_bytes rs)) cel
           = (Inr (cel\<lparr>Records := Records cel @ rs\<rparr>), [])"
  using assms
proof (induction rs arbitrary: cel)
  case Nil
  then show ?case
    by (subst DecodeToCEL_loop.simps) (simp add: Buffer_Len_def)
next
  case (Cons r rs)
  have "DecodeToCEL_loop (CELR_bytes r @ concat (map CELR_bytes rs)) cel
          = DecodeToCEL_loop (concat (map CELR_bytes rs)) (cel\<lparr>Records := Records cel @ [r]\<rparr>)"
    using Cons.prems CELR_bytes_nonempty [of r]
    by (subst DecodeToCEL_loop.simps) (simp add: Buffer_Len_def DecodeToCELR_bytes)
  then show ?case
    using Cons by simp
qed

lemma valid_example: "valid_record example_record"
  by (simp add: valid_record_def example_record_def well_formed_TLV_def recnumTypeValue_def
      pcrTypeValue_def digestsTypeValue_def)

text \<open>
  C1. For every valid record (the value of each of its four TLVs fits the 4-byte length
  field; RECNUM has type 0, PCR type 1, DIGESTS type 3), \<open>EncodeCELR\<close> into an empty
  buffer succeeds and \<open>DecodeToCELR\<close> on the bytes written returns the same record and
  leaves the buffer empty; and for every log whose records are all valid, \<open>DecodeToCEL\<close>
  on the output of \<open>EncodeCEL\<close> returns the same log.
\<close>

theorem encode_decode_roundtrip:
  "(valid_record r \<longrightarrow>
      fst (EncodeCELR r []) = None \<and> DecodeToCELR (snd (EncodeCELR r [])) = (Inr r, [])) \<and>
   ((\<forall>r \<in> set (Records c). valid_record r) \<longrightarrow>
      fst (EncodeCEL c []) = None \<and> DecodeToCEL (snd (EncodeCEL c [])) = (Inr c, []))"
proof (intro conjI impI)
  assume "valid_record r"
  then show "DecodeToCELR (snd (EncodeCELR r [])) = (Inr r, [])"
    using DecodeToCELR_bytes [of r "[]"] by (simp add: EncodeCELR_bytes)
next
  assume "\<forall>r \<in> set (Records c). valid_record r"
  then show "DecodeToCEL (snd (EncodeCEL c [])) = (Inr c, [])"
    using DecodeToCEL_loop_bytes [of "Records c" "\<lparr>Records = []\<rparr>"]
    by (simp add: EncodeCEL_def EncodeCEL_loop_bytes DecodeToCEL_def)
qed (simp_all add: EncodeCELR_bytes EncodeCEL_def EncodeCEL_loop_bytes)

theorem encode_decode_roundtrip_witness:
  "valid_record example_record \<and>
   DecodeToCELR (snd (EncodeCELR example_record [])) = (Inr example_record, []) \<and>
   DecodeToCEL (snd (EncodeCEL \<lparr>Records = [example_record, example_record]\<rparr> []))
     = (Inr \<lparr>Records = [example_record, example_record]\<rparr>, [])"
  using encode_decode_roundtrip [of example_record "\<lparr>Records = [example_record, example_record]\<rparr>"]
    valid_example
  by simp

subsection \<open>Appending events\<close>

lemma createCELR_RECNUM:
  "createCELR L recNum pcr digestsmap event = Inr celr \<Longrightarrow>
     RECNUM celr = createRecNumField recNum \<and> PCR celr = createPCRField pcr \<and>
     Content celr = GetTLV event"
  by (auto simp: createCELR_def split: sum.splits)

lemma AppendEvent_cases:
  "(\<exists>err. AppendEvent L rng c pcr hashAlgos event = (Some err, c)) \<or>
   (\<exists>celr. AppendEvent L rng c pcr hashAlgos event = (None, c\<lparr>Records := Records c @ [celr]\<rparr>) \<and>
      RECNUM celr = createRecNumField (word_of_nat (length (Records c))) \<and>
      PCR celr = createPCRField (word_of_int pcr) \<and> Content celr = GetTLV event)"
  by (auto simp: AppendEvent_def dest: createCELR_RECNUM split: sum.splits)

lemma AppendEvents_recnums:
  "AppendEvents L c calls = Inr c' \<Longrightarrow>
     \<exists>new. Records c' = Records c @ new \<and> length new = length calls \<and>
       (\<forall>i < length calls.
          RECNUM (new ! i) = createRecNumField (word_of_nat (length (Records c) + i)))"
proof (induction calls arbitrary: c)
  case Nil
  then show ?case by simp
next
  case (Cons call calls)
  obtain rng pcr hashAlgos event where call: "call = (rng, pcr, hashAlgos, event)"
    by (cases call) auto
  from Cons.prems AppendEvent_cases [of L rng c pcr hashAlgos event]
  obtain celr where
    step: "AppendEvent L rng c pcr hashAlgos event = (None, c\<lparr>Records := Records c @ [celr]\<rparr>)"
    and rn: "RECNUM celr = createRecNumField (word_of_nat (length (Records c)))"
    by (auto simp: call)
  from Cons.prems have "AppendEvents L (c\<lparr>Records := Records c @ [celr]\<rparr>) calls = Inr c'"
    by (simp add: call step)
  from Cons.IH [OF this] obtain new where
    new: "Records c' = (Records c @ [celr]) @ new" "length new = length calls"
    "\<forall>i < length calls. RECNUM (new ! i)
        = createRecNumField (word_of_nat (length (Records c @ [celr]) + i))"
    by auto
  have "\<forall>i < length (call # calls).
          RECNUM ((celr # new) ! i) = createRecNumField (word_of_nat (length (Records c) + i))"
  proof (intro allI impI)
    fix i assume "i < length (call # calls)"
    then show "RECNUM ((celr # new) ! i) = createRecNumField (word_of_nat (length (Records c) + i))"
      using rn new(3) by (cases i) auto
  qed
  then show ?case
    using new(1,2) by (intro exI [of _ "celr # new"]) simp
qed

lemma UnmarshalRecNum_create: "UnmarshalRecNum (createRecNumField n) = Inr n"
  by (simp add: UnmarshalRecNum_def createRecNumField_def length_PutUint64 recnumValueLength_def
      Uint64_PutUint64)

lemma generateDigests_fails:
  "\<exists>h \<in> set hashAlgos. isl (GenerateDigest event h) \<Longrightarrow>
     isl (generateDigests event hashAlgos m)"
  by (induction hashAlgos arbitrary: m) (auto split: sum.splits)

lemma example_calls_log: "AppendEvents go_libs \<lparr>Records = []\<rparr> example_calls = Inr example_log"
  by (simp add: example_calls_def example_log_def AppendEvent_def example_content_def
      visit_in_order_def createCELR_def createDigestField_def go_libs_def go_Hash_Size_def
      go_HashToAlgorithm_def SHA1_def SHA256_def MarshalBinary_def Buffer_Write_def
      createRecNumField_def createPCRField_def PutUint64_def PutUint32_def
      recnumTypeValue_def pcrTypeValue_def digestsTypeValue_def)

text \<open>
  C2. For every log built by successful \<open>AppendEvent\<close> calls from the empty log, whatever
  the arguments of the calls, the log has one record for each call, and RECNUM of the
  record at position \<open>i\<close> is the TLV of type 0 whose value is the 8-byte big-endian
  encoding of \<open>i\<close>, which \<open>UnmarshalRecNum\<close> reads back as \<open>i\<close>. The number comes from
  the length of the record list at the time of the call; no argument of the call enters it.
\<close>

theorem recnum_is_position:
  assumes "AppendEvents L \<lparr>Records = []\<rparr> calls = Inr c"
  shows "length (Records c) = length calls \<and>
     (\<forall>i < length calls.
        RECNUM (Records c ! i) = \<lparr>Type = 0, Value = PutUint64 (word_of_nat i)\<rparr> \<and>
        UnmarshalRecNum (RECNUM (Records c ! i)) = Inr (word_of_nat i))"
proof -
  from AppendEvents_recnums [OF assms] obtain new where
    new: "Records c = new" "length new = length calls"
    "\<forall>i < length calls. RECNUM (new ! i) = createRecNumField (word_of_nat i)"
    by auto
  show ?thesis
  proof (intro conjI allI impI)
    show "length (Records c) = length calls"
      using new by simp
  next
    fix i assume "i < length calls"
    then have r: "RECNUM (Records c ! i) = createRecNumField (word_of_nat i)"
      using new by simp
    then show "RECNUM (Records c ! i) = \<lparr>Type = 0, Value = PutUint64 (word_of_nat i)\<rparr>"
      by (simp add: createRecNumField_def recnumTypeValue_def)
    show "UnmarshalRecNum (RECNUM (Records c ! i)) = Inr (word_of_nat i)"
      by (simp add: r UnmarshalRecNum_create)
  qed
qed

theorem recnum_is_position_witness:
  "AppendEvents go_libs \<lparr>Records = []\<rparr> example_calls = Inr example_log \<and>
   length (Records example_log) = 2 \<and>
   RECNUM (Records example_log ! 1) = \<lparr>Type = 0, Value = PutUint64 (word_of_nat 1)\<rparr> \<and>
   UnmarshalRecNum (RECNUM (Records example_log ! 1)) = Inr (word_of_nat 1)"
proof -
  have len: "length example_calls = 2"
    by (simp add: example_calls_def)
  have pos: "(1::nat) < length example_calls"
    by (simp add: len)
  from recnum_is_position [OF example_calls_log]
  have "length (Records example_log) = length example_calls"
    and "RECNUM (Records example_log ! 1) = \<lparr>Type = 0, Value = PutUint64 (word_of_nat 1)\<rparr> \<and>
         UnmarshalRecNum (RECNUM (Records example_log ! 1)) = Inr (word_of_nat 1)"
    using pos by blast+
  then show ?thesis
    using example_calls_log unfolding len by blast
qed

text \<open>
  C7. \<open>AppendEvent\<close> fails and returns the log as it was when the list of hash
  algorithms is empty or when the content fails to produce one of the requested digests;
  every failing call leaves the log as it was; and a successful call returns the log with
  exactly one record added at the end and nothing else changed.
\<close>

theorem AppendEvent_no_partial_mutation:
  "(hashAlgos = [] \<or> (\<exists>h \<in> set hashAlgos. isl (GenerateDigest event h)) \<longrightarrow>
      (\<exists>err. AppendEvent L rng c pcr hashAlgos event = (Some err, c))) \<and>
   (\<forall>err c'. AppendEvent L rng c pcr hashAlgos event = (Some err, c') \<longrightarrow> c' = c) \<and>
   (\<forall>c'. AppendEvent L rng c pcr hashAlgos event = (None, c') \<longrightarrow>
      (\<exists>celr. c' = c\<lparr>Records := Records c @ [celr]\<rparr>))"
proof (intro conjI allI impI)
  assume "hashAlgos = [] \<or> (\<exists>h \<in> set hashAlgos. isl (GenerateDigest event h))"
  then show "\<exists>err. AppendEvent L rng c pcr hashAlgos event = (Some err, c)"
  proof
    assume "hashAlgos = []"
    then show ?thesis by (simp add: AppendEvent_def)
  next
    assume "\<exists>h \<in> set hashAlgos. isl (GenerateDigest event h)"
    from generateDigests_fails [OF this, of Map.empty]
    show ?thesis
      by (auto simp: AppendEvent_def isl_def)
  qed
next
  fix err c' assume "AppendEvent L rng c pcr hashAlgos event = (Some err, c')"
  then show "c' = c"
    using AppendEvent_cases [of L rng c pcr hashAlgos event] by auto
next
  fix c' assume "AppendEvent L rng c pcr hashAlgos event = (None, c')"
  then show "\<exists>celr. c' = c\<lparr>Records := Records c @ [celr]\<rparr>"
    using AppendEvent_cases [of L rng c pcr hashAlgos event] by auto
qed


lemma example_append_succeeds:
  "fst (AppendEvent go_libs (visit_in_order [SHA1, SHA256]) example_log 23 [SHA1] example_content)
     = None"
  by (simp add: AppendEvent_def example_content_def visit_in_order_def createCELR_def
      createDigestField_def go_libs_def go_Hash_Size_def go_HashToAlgorithm_def SHA1_def
      SHA256_def MarshalBinary_def split: sum.splits)

theorem AppendEvent_no_partial_mutation_witness:
  "AppendEvent go_libs (visit_in_order [SHA1, SHA256]) example_log 23 [] example_content
     = (Some ErrNoHashAlgo, example_log) \<and>
   isl (GenerateDigest example_content 9) \<and>
   (\<exists>err. AppendEvent go_libs (visit_in_order [SHA1, SHA256]) example_log 23 [SHA1, 9]
            example_content = (Some err, example_log)) \<and>
   (\<exists>celr. AppendEvent go_libs (visit_in_order [SHA1, SHA256]) example_log 23 [SHA1]
            example_content = (None, example_log\<lparr>Records := Records example_log @ [celr]\<rparr>))"
proof -
  have "\<exists>celr. AppendEvent go_libs (visit_in_order [SHA1, SHA256]) example_log 23 [SHA1]
            example_content = (None, example_log\<lparr>Records := Records example_log @ [celr]\<rparr>)"
    using AppendEvent_no_partial_mutation
      [of "[SHA1]" example_content go_libs "visit_in_order [SHA1, SHA256]" example_log 23]
      example_append_succeeds
    by (metis prod.collapse)
  then show ?thesis
    using AppendEvent_no_partial_mutation
      [of "[SHA1, 9]" example_content go_libs "visit_in_order [SHA1, SHA256]" example_log 23]
      AppendEvent_no_partial_mutation
      [of "[]" example_content go_libs "visit_in_order [SHA1, SHA256]" example_log 23]
    by (auto simp: example_content_def SHA1_def SHA256_def AppendEvent_def)
qed

subsection \<open>The digests field\<close>

lemma createDigestField_loop_ok:
  "list_all (digest_entry_ok L) kvs \<Longrightarrow>
     createDigestField_loop L kvs buf = Inr (buf @ concat (map (digest_entry_bytes L) kvs))"
proof (induction kvs arbitrary: buf)
  case Nil
  then show ?case by simp
next
  case (Cons kv kvs)
  obtain h d where kv: "kv = (h, d)"
    by (cases kv) auto
  from Cons.prems obtain a where "Hash_Size L h = Some (length d)" "HashToAlgorithm L h = Inr a"
    by (cases "HashToAlgorithm L h") (auto simp: kv digest_entry_ok_def)
  then show ?case
    using Cons
    by (simp add: kv MarshalBinary_def TLV_bytes_def Buffer_Write_def digest_entry_bytes_def)
qed

lemma createDigestField_loop_bad:
  "\<not> list_all (digest_entry_ok L) kvs \<Longrightarrow> isl (createDigestField_loop L kvs buf)"
proof (induction kvs arbitrary: buf)
  case Nil
  then show ?case by simp
next
  case (Cons kv kvs)
  obtain h d where kv: "kv = (h, d)"
    by (cases kv) auto
  show ?case
  proof (cases "digest_entry_ok L kv")
    case True
    then obtain a where "Hash_Size L h = Some (length d)" "HashToAlgorithm L h = Inr a"
      by (cases "HashToAlgorithm L h") (auto simp: kv digest_entry_ok_def)
    then show ?thesis
      using Cons True by (simp add: kv MarshalBinary_def)
  next
    case False
    then show ?thesis
      by (auto simp: kv digest_entry_ok_def MarshalBinary_def split: option.splits sum.splits)
  qed
qed

lemma createDigestField_eq:
  "createDigestField L kvs =
     (if list_all (digest_entry_ok L) kvs
      then Inr \<lparr>Type = digestsTypeValue, Value = concat (map (digest_entry_bytes L) kvs)\<rparr>
      else Inl (projl (createDigestField_loop L kvs [])))"
proof (cases "list_all (digest_entry_ok L) kvs")
  case True
  then show ?thesis
    by (simp add: createDigestField_def createDigestField_loop_ok)
next
  case False
  then obtain err where "createDigestField_loop L kvs [] = Inl err"
    using createDigestField_loop_bad [of L kvs "[]"] by (auto simp: isl_def)
  then show ?thesis
    using False by (simp add: createDigestField_def)
qed

lemma isl_createDigestField:
  "isl (createDigestField L kvs) \<longleftrightarrow> \<not> list_all (digest_entry_ok L) kvs"
  by (simp add: createDigestField_eq)

lemma isl_createCELR:
  "isl (createCELR L recNum pcr kvs event) \<longleftrightarrow> \<not> list_all (digest_entry_ok L) kvs"
  using isl_createDigestField [of L kvs]
  by (auto simp: createCELR_def split: sum.splits)

lemma short_digest: "Hash_Size go_libs SHA256 \<noteq> Some (length (replicate 31 (0::byte)))"
  by (simp add: go_libs_def go_Hash_Size_def SHA256_def)

lemma example_digests_ok: "createDigestField go_libs example_digests =
    Inr \<lparr>Type = 3, Value = [4, 0, 0, 0, 20] @ replicate 20 0xCD @ [11, 0, 0, 0, 32] @ replicate 32 0xAB\<rparr>"
  by (simp add: example_digests_def createDigestField_def go_libs_def go_Hash_Size_def
      go_HashToAlgorithm_def SHA1_def SHA256_def MarshalBinary_def Buffer_Write_def
      PutUint32_def digestsTypeValue_def)

text \<open>
  C5, as the code has it. \<open>createCELR\<close> fails when the byte length of a digest differs
  from the size of its hash algorithm (or when \<open>crypto\<close> does not know the algorithm,
  where \<open>Size\<close> panics); it returns a record, made of the four canonical TLVs, only when
  every digest has the size of its algorithm, and it fails exactly when some entry has a
  wrong length or an algorithm without a TPM identifier. It does not look at the number of
  entries: for the empty map it returns a record whose DIGESTS value is empty.
\<close>

theorem createCELR_digest_lengths:
  "((\<exists>e \<in> set digestsmap. Hash_Size L (fst e) \<noteq> Some (length (snd e))) \<longrightarrow>
      isl (createCELR L recNum pcr digestsmap event)) \<and>
   (\<forall>celr. createCELR L recNum pcr digestsmap event = Inr celr \<longrightarrow>
      (\<forall>e \<in> set digestsmap. Hash_Size L (fst e) = Some (length (snd e))) \<and>
      RECNUM celr = createRecNumField recNum \<and> PCR celr = createPCRField pcr \<and>
      Type (Digests celr) = digestsTypeValue \<and> Content celr = GetTLV event) \<and>
   (isl (createCELR L recNum pcr digestsmap event) \<longleftrightarrow>
      (\<exists>e \<in> set digestsmap. \<not> digest_entry_ok L e)) \<and>
   createCELR L recNum pcr [] event =
     Inr \<lparr>RECNUM = createRecNumField recNum, PCR = createPCRField pcr,
          Digests = \<lparr>Type = digestsTypeValue, Value = []\<rparr>, Content = GetTLV event\<rparr>"
proof (intro conjI allI impI)
  assume "\<exists>e \<in> set digestsmap. Hash_Size L (fst e) \<noteq> Some (length (snd e))"
  then show "isl (createCELR L recNum pcr digestsmap event)"
    by (auto simp: isl_createCELR list_all_iff digest_entry_ok_def)
next
  fix celr assume ok: "createCELR L recNum pcr digestsmap event = Inr celr"
  then have "\<not> isl (createCELR L recNum pcr digestsmap event)"
    by simp
  then show "\<forall>e \<in> set digestsmap. Hash_Size L (fst e) = Some (length (snd e))"
    by (auto simp: isl_createCELR list_all_iff digest_entry_ok_def)
  show "RECNUM celr = createRecNumField recNum" "PCR celr = createPCRField pcr"
    "Content celr = GetTLV event"
    using createCELR_RECNUM [OF ok] by simp_all
  show "Type (Digests celr) = digestsTypeValue"
    using ok by (auto simp: createCELR_def createDigestField_def split: sum.splits)
next
  show "isl (createCELR L recNum pcr digestsmap event) \<longleftrightarrow>
          (\<exists>e \<in> set digestsmap. \<not> digest_entry_ok L e)"
    by (simp add: isl_createCELR list_all_iff)
next
  show "createCELR L recNum pcr [] event =
     Inr \<lparr>RECNUM = createRecNumField recNum, PCR = createPCRField pcr,
          Digests = \<lparr>Type = digestsTypeValue, Value = []\<rparr>, Content = GetTLV event\<rparr>"
    by (simp add: createCELR_def createDigestField_def)
qed

theorem createCELR_digest_lengths_witness:
  "Hash_Size go_libs SHA256 \<noteq> Some (length (replicate 31 (0::byte))) \<and>
   isl (createCELR go_libs 0 23 [(SHA256, replicate 31 0)] example_content) \<and>
   \<not> isl (createCELR go_libs 0 23 example_digests example_content) \<and>
   Hash_Size go_libs SHA1 = Some (length (replicate 20 (0xCD::byte)))"
proof -
  have a: "isl (createCELR go_libs 0 23 [(SHA256, replicate 31 0)] example_content)"
    using createCELR_digest_lengths
      [of "[(SHA256, replicate 31 0)]" go_libs 0 23 example_content] short_digest
    by simp
  obtain celr where b: "createCELR go_libs 0 23 example_digests example_content = Inr celr"
    by (simp add: createCELR_def example_digests_ok)
  then have "\<forall>e \<in> set example_digests. Hash_Size go_libs (fst e) = Some (length (snd e))"
    using createCELR_digest_lengths [of example_digests go_libs 0 23 example_content]
    by blast
  then have "Hash_Size go_libs SHA1 = Some (length (replicate 20 (0xCD::byte)))"
    by (simp add: example_digests_def)
  then show ?thesis
    using a b short_digest by simp
qed


text \<open>C5, as the claim states it, fails: \<open>createCELR\<close> on the empty digest map returns a
  record. The check for emptiness is in \<open>AppendEvent\<close>, on the list of algorithms.\<close>

theorem createCELR_empty_map_counterexample:
  "createCELR go_libs 0 23 [] example_content =
     Inr \<lparr>RECNUM = \<lparr>Type = 0, Value = [0, 0, 0, 0, 0, 0, 0, 0]\<rparr>,
          PCR = \<lparr>Type = 1, Value = [23]\<rparr>,
          Digests = \<lparr>Type = 3, Value = []\<rparr>,
          Content = \<lparr>Type = 80, Value = [1, 2, 3]\<rparr>\<rparr>"
  by (simp add: createCELR_def createDigestField_def createRecNumField_def createPCRField_def
      PutUint64_def example_content_def recnumTypeValue_def pcrTypeValue_def
      digestsTypeValue_def)

lemma single_visit:
  assumes "length kvs \<le> 1" "distinct (map fst kvs')" "set kvs' = set kvs"
  shows "kvs' = kvs"
proof (cases kvs)
  case Nil
  then show ?thesis using assms by simp
next
  case (Cons x xs)
  then have kvs: "kvs = [x]"
    using assms(1) by simp
  have "distinct kvs'"
    using assms(2) by (simp add: distinct_map)
  then have "length kvs' = card (set kvs')"
    by (simp add: distinct_card)
  then have "length kvs' = 1"
    using assms(3) kvs by simp
  then obtain y where "kvs' = [y]"
    by (cases kvs') auto
  then show ?thesis
    using assms(3) kvs by simp
qed

lemma example_digests_rev: "createDigestField go_libs (rev example_digests) =
    Inr \<lparr>Type = 3, Value = [11, 0, 0, 0, 32] @ replicate 32 0xAB @ [4, 0, 0, 0, 20] @ replicate 20 0xCD\<rparr>"
  by (simp add: example_digests_def createDigestField_def go_libs_def go_Hash_Size_def
      go_HashToAlgorithm_def SHA1_def SHA256_def MarshalBinary_def Buffer_Write_def
      PutUint32_def digestsTypeValue_def)

text \<open>
  C10. Two visits of a map with at most one entry are the same list, so
  \<open>createDigestField\<close> returns the same result for both. In general the value it returns
  is the concatenation of the nested TLVs in the order of the visit, and so the two
  visits of the map with a SHA-1 and a SHA-256 digest give two different byte strings.
\<close>

theorem createDigestField_order:
  "(length digestMap \<le> 1 \<and> distinct (map fst digestMap') \<and> set digestMap' = set digestMap \<longrightarrow>
      createDigestField L digestMap' = createDigestField L digestMap) \<and>
   (\<forall>tlv. createDigestField L digestMap = Inr tlv \<longrightarrow>
      Value tlv = concat (map (digest_entry_bytes L) digestMap)) \<and>
   distinct (map fst example_digests) \<and> distinct (map fst (rev example_digests)) \<and>
   set (rev example_digests) = set example_digests \<and>
   createDigestField go_libs (rev example_digests) \<noteq> createDigestField go_libs example_digests"
proof (intro conjI allI impI)
  assume "length digestMap \<le> 1 \<and> distinct (map fst digestMap') \<and> set digestMap' = set digestMap"
  then have "digestMap' = digestMap"
    using single_visit by blast
  then show "createDigestField L digestMap' = createDigestField L digestMap"
    by simp
next
  fix tlv assume "createDigestField L digestMap = Inr tlv"
  then show "Value tlv = concat (map (digest_entry_bytes L) digestMap)"
    by (auto simp: createDigestField_eq split: if_splits)
next
  show "createDigestField go_libs (rev example_digests) \<noteq> createDigestField go_libs example_digests"
    by (simp add: example_digests_rev example_digests_ok)
next
  show d: "distinct (map fst example_digests)"
    by (simp add: example_digests_def SHA1_def SHA256_def)
  then show "distinct (map fst (rev example_digests))"
    by (simp add: rev_map [symmetric])
  show "set (rev example_digests) = set example_digests"
    by simp
qed

theorem createDigestField_order_witness:
  "length [(SHA1, replicate 20 (0xCD::byte))] \<le> 1 \<and>
   distinct (map fst [(SHA1, replicate 20 (0xCD::byte))]) \<and>
   createDigestField go_libs [(SHA1, replicate 20 0xCD)]
     = createDigestField go_libs [(SHA1, replicate 20 0xCD)] \<and>
   createDigestField go_libs example_digests =
     Inr \<lparr>Type = 3, Value = [4, 0, 0, 0, 20] @ replicate 20 0xCD @ [11, 0, 0, 0, 32]
                                @ replicate 32 0xAB\<rparr> \<and>
   [4, 0, 0, 0, 20] @ replicate 20 0xCD @ [11, 0, 0, 0, 32] @ replicate 32 0xAB
     = concat (map (digest_entry_bytes go_libs) example_digests)"
  using createDigestField_order
    [of "[(SHA1, replicate 20 0xCD)]" "[(SHA1, replicate 20 0xCD)]" go_libs]
    createDigestField_order [of example_digests example_digests go_libs] example_digests_ok
  by simp

text \<open>
  What \<open>UnmarshalDigests\<close> does with a TLV: it rejects a type other than 3; on a value
  that is a sequence of nested TLVs it returns what \<open>digests_of_entries\<close> says, so that it
  fails exactly when \<open>tpm2\<close> has no hash for one of the types; and when the value goes on
  with bytes that do not hold a whole TLV it fails with "buffer ends unexpectedly". The
  length of a nested value is not compared with anything.
\<close>

lemma TLV_bytes_nonempty: "TLV_bytes e \<noteq> []"
  by (simp add: TLV_bytes_def)

lemma UnmarshalDigests_loop_entries:
  "list_all well_formed_TLV es \<Longrightarrow>
     UnmarshalDigests_loop L (concat (map TLV_bytes es) @ rest) m =
       (case digests_of_entries L es m of
          Inl err \<Rightarrow> Inl err
        | Inr m' \<Rightarrow> UnmarshalDigests_loop L rest m')"
proof (induction es arbitrary: m)
  case Nil
  then show ?case by (simp split: sum.splits)
next
  case (Cons e es)
  then have wf: "well_formed_TLV e" and wfs: "list_all well_formed_TLV es"
    by simp_all
  have "UnmarshalDigests_loop L (TLV_bytes e @ concat (map TLV_bytes es) @ rest) m =
          (case Algorithm_Hash L (ucast (Type e)) of
             Inl err \<Rightarrow> Inl err
           | Inr hashAlg \<Rightarrow>
               UnmarshalDigests_loop L (concat (map TLV_bytes es) @ rest) (m(hashAlg \<mapsto> Value e)))"
    using TLV_bytes_nonempty [of e]
    by (subst UnmarshalDigests_loop.simps)
      (simp add: Buffer_Len_def UnmarshalFirstTLV_bytes [OF wf])
  note step = this
  show ?case
  proof (cases "Algorithm_Hash L (ucast (Type e))")
    case (Inl err)
    then show ?thesis
      using step by simp
  next
    case (Inr hashAlg)
    have "digests_of_entries L (e # es) m = digests_of_entries L es (m(hashAlg \<mapsto> Value e))"
      by (simp only: digests_of_entries.simps Inr sum.case)
    moreover have "UnmarshalDigests_loop L (concat (map TLV_bytes (e # es)) @ rest) m =
          UnmarshalDigests_loop L (concat (map TLV_bytes es) @ rest) (m(hashAlg \<mapsto> Value e))"
      using step by (simp only: Inr sum.case list.map concat.simps append_assoc)
    ultimately show ?thesis
      by (simp only: Cons.IH [OF wfs, of "m(hashAlg \<mapsto> Value e)"])
  qed
qed

lemma UnmarshalDigests_loop_end: "UnmarshalDigests_loop L [] m = Inr m"
  by (subst UnmarshalDigests_loop.simps) (simp add: Buffer_Len_def)

lemma UnmarshalDigests_loop_incomplete:
  "rest \<noteq> [] \<Longrightarrow> fst (UnmarshalFirstTLV rest) = Inl EOF \<Longrightarrow>
     UnmarshalDigests_loop L rest m = Inl ErrBufferEnds"
  by (subst UnmarshalDigests_loop.simps) (auto simp: Buffer_Len_def split: prod.splits sum.splits)

lemma isl_digests_of_entries:
  "isl (digests_of_entries L es m) \<longleftrightarrow> (\<exists>e \<in> set es. isl (Algorithm_Hash L (ucast (Type e))))"
  by (induction es arbitrary: m) (auto split: sum.splits)

lemma UnmarshalDigests_entries:
  "(Type tlv \<noteq> digestsTypeValue \<longrightarrow> UnmarshalDigests L tlv = Inl ErrDigestsType) \<and>
   ((\<forall>e \<in> set es. well_formed_TLV e) \<longrightarrow>
      UnmarshalDigests L \<lparr>Type = digestsTypeValue, Value = concat (map TLV_bytes es)\<rparr>
        = digests_of_entries L es Map.empty \<and>
      (isl (digests_of_entries L es Map.empty) \<longleftrightarrow>
         (\<exists>e \<in> set es. isl (Algorithm_Hash L (ucast (Type e))))) \<and>
      (rest \<noteq> [] \<and> fst (UnmarshalFirstTLV rest) = Inl EOF \<and>
       \<not> isl (digests_of_entries L es Map.empty) \<longrightarrow>
         UnmarshalDigests L \<lparr>Type = digestsTypeValue, Value = concat (map TLV_bytes es) @ rest\<rparr>
           = Inl ErrBufferEnds))"
proof (intro conjI impI)
  assume "Type tlv \<noteq> digestsTypeValue"
  then show "UnmarshalDigests L tlv = Inl ErrDigestsType"
    by (simp add: UnmarshalDigests_def)
next
  assume "\<forall>e \<in> set es. well_formed_TLV e"
  then have wf: "list_all well_formed_TLV es"
    by (simp add: list_all_iff)
  from UnmarshalDigests_loop_entries [OF wf, of L "[]" Map.empty]
  show "UnmarshalDigests L \<lparr>Type = digestsTypeValue, Value = concat (map TLV_bytes es)\<rparr>
          = digests_of_entries L es Map.empty"
    by (simp add: UnmarshalDigests_def UnmarshalDigests_loop_end split: sum.splits)
  show "isl (digests_of_entries L es Map.empty) \<longleftrightarrow>
          (\<exists>e \<in> set es. isl (Algorithm_Hash L (ucast (Type e))))"
    by (rule isl_digests_of_entries)
  assume "rest \<noteq> [] \<and> fst (UnmarshalFirstTLV rest) = Inl EOF \<and>
          \<not> isl (digests_of_entries L es Map.empty)"
  then show "UnmarshalDigests L \<lparr>Type = digestsTypeValue, Value = concat (map TLV_bytes es) @ rest\<rparr>
               = Inl ErrBufferEnds"
    using UnmarshalDigests_loop_entries [OF wf, of L rest Map.empty]
    by (auto simp: UnmarshalDigests_def UnmarshalDigests_loop_incomplete isl_def
        split: sum.splits)
qed

lemma UnmarshalDigests_entries_example:
  "Type \<lparr>Type = 1, Value = []\<rparr> \<noteq> digestsTypeValue \<and>
   UnmarshalDigests go_libs \<lparr>Type = 1, Value = []\<rparr> = Inl ErrDigestsType \<and>
   well_formed_TLV example_entry \<and>
   UnmarshalDigests go_libs
       \<lparr>Type = digestsTypeValue, Value = concat (map TLV_bytes [example_entry])\<rparr>
     = Inr (Map.empty(SHA256 \<mapsto> [0xAA])) \<and>
   fst (UnmarshalFirstTLV [0x0B, 0]) = Inl EOF \<and>
   UnmarshalDigests go_libs
       \<lparr>Type = digestsTypeValue, Value = concat (map TLV_bytes [example_entry]) @ [0x0B, 0]\<rparr>
     = Inl ErrBufferEnds"
proof -
  have wf: "\<forall>e \<in> set [example_entry]. well_formed_TLV e"
    by (simp add: example_entry_def well_formed_TLV_def)
  have d: "digests_of_entries go_libs [example_entry] Map.empty = Inr (Map.empty(SHA256 \<mapsto> [0xAA]))"
    by (simp add: example_entry_def go_libs_def go_Algorithm_Hash_def SHA256_def)
  have r: "fst (UnmarshalFirstTLV [0x0B, 0]) = Inl EOF"
    by (simp add: UnmarshalFirstTLV_eq)
  have t: "Type \<lparr>Type = 1, Value = []\<rparr> \<noteq> digestsTypeValue"
    by (simp add: digestsTypeValue_def)
  show ?thesis
    using UnmarshalDigests_entries
      [of "\<lparr>Type = 1, Value = []\<rparr>" go_libs "[example_entry]" "[0x0B, 0]"] wf d r t
    by simp
qed

text \<open>
  C6. The claim asks that a nested digest whose length is not the digest size of its
  algorithm be reported as an error. \<open>UnmarshalDigests\<close> accepts it: a DIGESTS value with
  one nested TLV for SHA-256 (identifier \<open>0x0B\<close>, digest size 32) and a value of one byte
  is returned as a map, with a nil error.
\<close>

theorem UnmarshalDigests_accepts_wrong_size:
  "UnmarshalDigests go_libs \<lparr>Type = 3, Value = [0x0B, 0, 0, 0, 1, 0xAA]\<rparr>
     = Inr (Map.empty(SHA256 \<mapsto> [0xAA])) \<and>
   Hash_Size go_libs SHA256 = Some 32"
  by (simp add: UnmarshalDigests_def digestsTypeValue_def UnmarshalFirstTLV_eq Buffer_Len_def
      Uint32_def go_libs_def go_Algorithm_Hash_def go_Hash_Size_def SHA256_def
      UnmarshalDigests_loop.simps)


subsection \<open>The register chain\<close>





















subsection \<open>Sealing and unsealing\<close>

text \<open>
  C4. For every secret and every selection, when the secret is sealed under
  \<open>CurrentRegisters\<close> of the selection and the blob is unsealed with no certify assertion
  while the registers are as they were, unsealing succeeds and returns the secret. The
  hardware is taken to decrypt, for the digest a blob was encrypted for, what was
  encrypted.
\<close>

theorem Seal_Unseal_roundtrip:
  assumes contract:
      "\<forall>secret d p. encrypt_under_parent hw parent secret d = Inr p \<longrightarrow>
         decrypt_under_parent hw parent p d = Inr secret"
    and sealed: "Seal hw regs parent secret (Some (CurrentRegisters sel)) = Inr blob"
  shows "Unseal hw regs blob parent None = Inr secret"
proof -
  from sealed obtain d p where
    d: "policy_digest hw sel (read_registers regs sel) = Inr d" and
    p: "encrypt_under_parent hw parent secret (Some d) = Inr p" and
    blob: "blob = \<lparr>payload = p, policy = Some (sel, d)\<rparr>"
    by (auto simp: Seal_def split: sum.splits)
  from contract p have "decrypt_under_parent hw parent p (Some d) = Inr secret"
    by blast
  then show ?thesis
    by (simp add: Unseal_def blob d)
qed

lemma example_seal:
  "Seal example_tpm example_registers 1 [0x74, 0x65, 0x73, 0x74]
     (Some (CurrentRegisters example_selection)) = Inr example_blob"
  by (simp add: Seal_def policy_digest_def read_registers_def example_tpm_def
      example_registers_def example_selection_def example_blob_def Let_def sum_list_replicate)

theorem Seal_Unseal_roundtrip_witness:
  "Seal example_tpm example_registers 1 [0x74, 0x65, 0x73, 0x74]
     (Some (CurrentRegisters example_selection)) = Inr example_blob \<and>
   Unseal example_tpm example_registers example_blob 1 None = Inr [0x74, 0x65, 0x73, 0x74]"
proof -
  have "\<forall>secret d p. encrypt_under_parent example_tpm 1 secret d = Inr p \<longrightarrow>
          decrypt_under_parent example_tpm 1 p d = Inr secret"
    by (auto simp: example_tpm_def)
  from Seal_Unseal_roundtrip [OF this example_seal] example_seal
  show ?thesis by simp
qed

end
